theory Spec2Isabelle
  imports Complex_Main
begin

section \<open>The observable container: class \<open>Store\<close>\<close>

text \<open>
  The class under verification:
  \<^verbatim>\<open>
  export class Store<T> {
      state: T;
      callbacks: StoreUpdateCallback<T>[];
      constructor(data: T) { this.state = data; this.callbacks = []; }
      subscribe(callback) {
          this.callbacks.push(callback);
          return () => {
              for (let i = this.callbacks.length - 1; i >= 0; i--) {
                  if (this.callbacks[i] === callback) this.callbacks.splice(i, 1);
              }
          };
      }
      getState() { return this.state; }
      setState(update) {
          let prevState = this.state;
          let nextState = update instanceof Function ? update(this.state) : update;
          this.state = nextState;
          for (let callback of this.callbacks) callback(nextState, prevState);
      }
  }
  \<close>

  A run-time value is either a function object, which can be called, or anything else.
  Function objects are compared by reference (\<open>===\<close>), so they are represented by an
  identity of type \<open>'f\<close>; what a function does when it is called is supplied separately,
  by an environment.
\<close>

datatype ('a, 'f) val = Plain 'a | Function 'f

text \<open>
  What is thrown: an \<open>Error\<close> with its message, or the \<open>TypeError\<close> of the language for a
  call of what is not a function.
\<close>

datatype thrown = Error string | TypeError

type_synonym ref = nat

record ('a, 'f) Store =
  state :: "('a, 'f) val"
  callbacks :: "'f list"

text \<open>
  Store instances live in a heap indexed by object reference. The field \<open>host\<close> holds
  everything else that caller-supplied functions can read and write.
\<close>

record ('a, 'f, 'u) world =
  stores :: "ref \<Rightarrow> ('a, 'f) Store"
  host :: 'u

text \<open>
  The behaviour of the caller-supplied functions. A \<open>StoreUpdateCallback\<close> returns
  nothing: it either completes or throws, and it may change the world on the way (it can
  subscribe, unsubscribe or call \<open>setState\<close> itself). A \<open>StoreStateUpdate\<close> returns the next
  state or throws.

  \<open>instance_of_Function v\<close> is the outcome of \<open>v instanceof Function\<close>: whether the
  prototype chain of \<open>v\<close> reaches \<open>Function.prototype\<close>. It is a property of the value, not
  of its being callable. A function object of another realm, or one whose prototype was
  set to \<open>null\<close>, can be called and is not an instance; an object created with
  \<open>Function.prototype\<close> as its prototype is an instance and cannot be called. Prototype
  chains are taken to stay as they are while the program runs.
\<close>

record ('a, 'f, 'u) env =
  run_callback :: "'f \<Rightarrow> ('a, 'f) val \<Rightarrow> ('a, 'f) val \<Rightarrow> ('a, 'f, 'u) world
                    \<Rightarrow> thrown option \<times> ('a, 'f, 'u) world"
  run_update :: "'f \<Rightarrow> ('a, 'f) val \<Rightarrow> ('a, 'f, 'u) world
                    \<Rightarrow> (thrown + ('a, 'f) val) \<times> ('a, 'f, 'u) world"
  instance_of_Function :: "('a, 'f) val \<Rightarrow> bool"

definition modify_store ::
  "ref \<Rightarrow> (('a, 'f) Store \<Rightarrow> ('a, 'f) Store) \<Rightarrow> ('a, 'f, 'u) world \<Rightarrow> ('a, 'f, 'u) world" where
  "modify_store r f w = w\<lparr>stores := (stores w)(r := f (stores w r))\<rparr>"

text \<open>\<open>new Store(data)\<close>, placed at reference \<open>r\<close>.\<close>

definition new_Store :: "ref \<Rightarrow> ('a, 'f) val \<Rightarrow> ('a, 'f, 'u) world \<Rightarrow> ('a, 'f, 'u) world" where
  "new_Store r data w = modify_store r (\<lambda>_. \<lparr>state = data, callbacks = []\<rparr>) w"

definition getState :: "ref \<Rightarrow> ('a, 'f, 'u) world \<Rightarrow> ('a, 'f) val" where
  "getState r w = state (stores w r)"

subsection \<open>subscribe and the function it returns\<close>

text \<open>\<open>Array.prototype.splice(i, 1)\<close>: removes the element at index \<open>i\<close>, in place.\<close>

definition splice1 :: "nat \<Rightarrow> 'x list \<Rightarrow> 'x list" where
  "splice1 i xs = take i xs @ drop (Suc i) xs"

text \<open>
  The loop of the returned function, \<open>for (i = length - 1; i >= 0; i--)\<close>. The counter of
  the model is \<open>i + 1\<close>, so that the exit \<open>i = -1\<close> is the counter \<open>0\<close>. An index outside
  the array reads \<open>undefined\<close>, which is not \<open>===\<close> to a function.
\<close>

fun unsubscribe_loop :: "'f \<Rightarrow> nat \<Rightarrow> 'f list \<Rightarrow> 'f list" where
  "unsubscribe_loop callback 0 cs = cs"
| "unsubscribe_loop callback (Suc i) cs =
     unsubscribe_loop callback i
       (if i < length cs \<and> cs ! i = callback then splice1 i cs else cs)"

text \<open>
  The closure returned by \<open>subscribe\<close> captures \<open>this\<close> and \<open>callback\<close>, nothing else.
\<close>

datatype 'f unsubscribe = Unsubscribe ref 'f

definition subscribe ::
  "ref \<Rightarrow> 'f \<Rightarrow> ('a, 'f, 'u) world \<Rightarrow> 'f unsubscribe \<times> ('a, 'f, 'u) world" where
  "subscribe r callback w =
     (Unsubscribe r callback,
      modify_store r (\<lambda>s. s\<lparr>callbacks := callbacks s @ [callback]\<rparr>) w)"

fun call_unsubscribe :: "'f unsubscribe \<Rightarrow> ('a, 'f, 'u) world \<Rightarrow> ('a, 'f, 'u) world" where
  "call_unsubscribe (Unsubscribe r callback) w =
     modify_store r
       (\<lambda>s. s\<lparr>callbacks := unsubscribe_loop callback (length (callbacks s)) (callbacks s)\<rparr>) w"

subsection \<open>setState\<close>

text \<open>
  How a call of \<open>setState\<close> ends. The notification loop has no bound of its own (an
  observer may keep appending observers), so the model counts the observer calls it may
  still make; \<open>OutOfFuel\<close> says that the count was used up before the loop ended.
\<close>

datatype outcome = Returned | Threw thrown | OutOfFuel

type_synonym ('a, 'f) invocation = "'f \<times> ('a, 'f) val \<times> ('a, 'f) val"

text \<open>
  \<open>for (let callback of this.callbacks) callback(nextState, prevState)\<close>. The array
  iterator keeps the array object and an index; each step compares the index with the
  current length of the array and reads the current element at the index. The class
  assigns the field \<open>callbacks\<close> once, in the constructor, and \<open>push\<close> and \<open>splice\<close> act in
  place, so the array of the iterator is the array of the field. The third component of
  the result lists the calls made by this loop, in order.
\<close>

fun notify ::
  "('a, 'f, 'u) env \<Rightarrow> nat \<Rightarrow> ref \<Rightarrow> ('a, 'f) val \<Rightarrow> ('a, 'f) val \<Rightarrow> nat \<Rightarrow> ('a, 'f, 'u) world
     \<Rightarrow> outcome \<times> ('a, 'f, 'u) world \<times> ('a, 'f) invocation list" where
  "notify E 0 r nextState prevState i w =
     (if i < length (callbacks (stores w r)) then (OutOfFuel, w, []) else (Returned, w, []))"
| "notify E (Suc fuel) r nextState prevState i w =
     (if i < length (callbacks (stores w r)) then
        (let callback = callbacks (stores w r) ! i in
         case run_callback E callback nextState prevState w of
           (Some e, w') \<Rightarrow> (Threw e, w', [(callback, nextState, prevState)])
         | (None, w') \<Rightarrow>
             (case notify E fuel r nextState prevState (Suc i) w' of
                (out, w'', calls) \<Rightarrow> (out, w'', (callback, nextState, prevState) # calls)))
      else (Returned, w, []))"

text \<open>
  \<open>update instanceof Function ? update(this.state) : update\<close>. When the test holds, the
  value is called: a function object runs, and the call of anything else throws a
  \<open>TypeError\<close>. When the test fails, the value is the next state, function object or not.
\<close>

definition eval_update ::
  "('a, 'f, 'u) env \<Rightarrow> ref \<Rightarrow> ('a, 'f) val \<Rightarrow> ('a, 'f, 'u) world
     \<Rightarrow> (thrown + ('a, 'f) val) \<times> ('a, 'f, 'u) world" where
  "eval_update E r update w =
     (if instance_of_Function E update then
        (case update of
           Function f \<Rightarrow> run_update E f (state (stores w r)) w
         | Plain _ \<Rightarrow> (Inl TypeError, w))
      else (Inr update, w))"

definition setState ::
  "('a, 'f, 'u) env \<Rightarrow> nat \<Rightarrow> ref \<Rightarrow> ('a, 'f) val \<Rightarrow> ('a, 'f, 'u) world
     \<Rightarrow> outcome \<times> ('a, 'f, 'u) world \<times> ('a, 'f) invocation list" where
  "setState E fuel r update w =
     (let prevState = state (stores w r) in
      case eval_update E r update w of
        (Inl e, w1) \<Rightarrow> (Threw e, w1, [])
      | (Inr nextState, w1) \<Rightarrow>
          notify E fuel r nextState prevState 0
            (modify_store r (\<lambda>s. s\<lparr>state := nextState\<rparr>) w1))"

section \<open>The binding adapter: hook \<open>useStore\<close>\<close>

text \<open>
  \<^verbatim>\<open>
  export function useStore<T>(store: Store<T>, shouldUpdate: ShouldUpdate<T> = true) {
      if (!isStore(store)) throw new Error("'store' is not an instance of Store");
      let [, setRevision] = useState(-1);
      let initedRef = useRef(false);
      let state = store.getState();
      let setState = useMemo(() => store.setState.bind(store), [store]);
      useEffect(() => {
          if (!shouldUpdate) return;
          let unsubscribe = store.subscribe((nextState, prevState) => {
              if (typeof shouldUpdate !== 'function' || shouldUpdate(nextState, prevState))
                  setRevision(Math.random());
          });
          if (!initedRef.current) {
              initedRef.current = true;
              setRevision(Math.random());
          }
          return () => { unsubscribe(); initedRef.current = false; };
      }, [store, shouldUpdate]);
      return [state, setState];
  }
  \<close>
  \<open>shouldUpdate\<close> is a boolean or a function object, \<open>Flag True\<close> when the caller leaves it
  out; a dependency array compares booleans by value and function objects by reference.
\<close>

datatype should_update = Flag bool | Filter nat

text \<open>
  The function objects of the adapter's world: those of the caller, and the two closures
  \<open>useStore\<close> creates. A closure is a new object each time its expression is evaluated,
  so it carries the number of its allocation next to what it captures.
\<close>

datatype fn =
    UserFn nat
  | BoundSetState ref nat
  | Subscription should_update nat

text \<open>
  The hook cells of one component instance: the \<open>useState\<close> cell, the \<open>useRef\<close> cell, the
  \<open>useMemo\<close> cell with its dependency, and for \<open>useEffect\<close> the effect registered by the
  current render, the dependencies of the effect that ran last and the cleanup it
  returned. \<open>previous\<close> lists the values the \<open>useState\<close> cell has held before the current
  one, oldest first: each call of \<open>setRevision\<close> adds one. \<open>draws\<close> counts the calls of
  \<open>Math.random\<close>, \<open>allocated\<close> the closures created.
\<close>

record hooks =
  revision :: real
  previous :: "real list"
  inited :: bool
  memo :: "(ref \<times> fn) option"
  pending_effect :: "(ref \<times> should_update) option"
  effect_deps :: "(ref \<times> should_update) option"
  effect_cleanup :: "fn unsubscribe option"
  draws :: nat
  allocated :: nat

type_synonym 'a rworld = "('a, fn, hooks) world"

text \<open>The cells of a component that has not rendered yet: \<open>useState(-1)\<close>, \<open>useRef(false)\<close>.\<close>

definition mount :: hooks where
  "mount = \<lparr>revision = - 1, previous = [], inited = False, memo = None,
            pending_effect = None, effect_deps = None, effect_cleanup = None,
            draws = 0, allocated = 0\<rparr>"

text \<open>
  What is passed as \<open>store\<close>: a \<open>Store\<close> instance of the heap, or anything else.
\<close>

datatype 'a argument = StoreObject ref | Other "('a, fn) val"

text \<open>
  Modelled from the spec: \<open>isStore\<close>, imported from \<open>./isStore\<close>, is not among the sources.
  The specification describes it as a check of the value's shape (it has a \<open>getState\<close>, a
  \<open>setState\<close> and a \<open>subscribe\<close>), true for any value exposing the container's shape and
  false for primitives, plain objects without matching methods, and \<open>undefined\<close>.
\<close>

fun isStore :: "'a argument \<Rightarrow> bool" where
  "isStore (StoreObject r) = True"
| "isStore (Other v) = False"

text \<open>
  \<open>Math.random()\<close>: the \<open>k\<close>-th call returns \<open>random k\<close>, for a sequence \<open>random\<close> that
  the environment supplies.
\<close>

definition Math_random :: "(nat \<Rightarrow> real) \<Rightarrow> 'a rworld \<Rightarrow> real \<times> 'a rworld" where
  "Math_random random w =
     (random (draws (host w)), w\<lparr>host := (host w)\<lparr>draws := Suc (draws (host w))\<rparr>\<rparr>)"

text \<open>The setter of the \<open>useState\<close> cell: it is how the adapter asks for a re-render.\<close>

definition setRevision :: "real \<Rightarrow> 'a rworld \<Rightarrow> 'a rworld" where
  "setRevision v w =
     w\<lparr>host := (host w)\<lparr>revision := v, previous := previous (host w) @ [revision (host w)]\<rparr>\<rparr>"

text \<open>\<open>setRevision(Math.random())\<close>\<close>

definition force_render :: "(nat \<Rightarrow> real) \<Rightarrow> 'a rworld \<Rightarrow> 'a rworld" where
  "force_render random w = (case Math_random random w of (v, w') \<Rightarrow> setRevision v w')"

text \<open>\<open>!shouldUpdate\<close> is false for \<open>true\<close> and for every function object.\<close>

fun truthy :: "should_update \<Rightarrow> bool" where
  "truthy (Flag b) = b"
| "truthy (Filter p) = True"

text \<open>
  The arrow function passed to \<open>store.subscribe\<close>. A \<open>ShouldUpdateCallback\<close> returns a
  boolean or throws; \<open>filters p\<close> is what the caller's function object \<open>p\<close> computes.
\<close>

definition subscription_callback ::
  "(nat \<Rightarrow> ('a, fn) val \<Rightarrow> ('a, fn) val \<Rightarrow> thrown + bool) \<Rightarrow> (nat \<Rightarrow> real) \<Rightarrow> should_update
     \<Rightarrow> ('a, fn) val \<Rightarrow> ('a, fn) val \<Rightarrow> 'a rworld \<Rightarrow> thrown option \<times> 'a rworld" where
  "subscription_callback filters random shouldUpdate nextState prevState w =
     (case shouldUpdate of
        Flag _ \<Rightarrow> (None, force_render random w)
      | Filter p \<Rightarrow>
          (case filters p nextState prevState of
             Inl e \<Rightarrow> (Some e, w)
           | Inr b \<Rightarrow> (None, if b then force_render random w else w)))"

text \<open>
  Calling an observer in the adapter's world: the adapter's own closure runs the body
  above, every other function object does what the caller's environment says.
\<close>

definition adapter_env ::
  "(nat \<Rightarrow> ('a, fn) val \<Rightarrow> ('a, fn) val \<Rightarrow> thrown + bool) \<Rightarrow> (nat \<Rightarrow> real)
     \<Rightarrow> ('a, fn, hooks) env \<Rightarrow> ('a, fn, hooks) env" where
  "adapter_env filters random E =
     \<lparr>run_callback = (\<lambda>f n p w.
        case f of
          Subscription shouldUpdate k \<Rightarrow> subscription_callback filters random shouldUpdate n p w
        | _ \<Rightarrow> run_callback E f n p w),
      run_update = run_update E,
      instance_of_Function = instance_of_Function E\<rparr>"

text \<open>
  The render phase. \<open>useMemo\<close> returns the cached value while its dependency is the same
  store and evaluates \<open>store.setState.bind(store)\<close>, a new function object, otherwise.
  \<open>useEffect\<close> only registers the effect; it runs after the render, in \<open>commit\<close>. The
  last case of \<open>useStore\<close> does not occur: \<open>isStore\<close> has rejected what is not a store.
\<close>

definition useMemo_setState :: "ref \<Rightarrow> 'a rworld \<Rightarrow> fn \<times> 'a rworld" where
  "useMemo_setState r w =
     (case memo (host w) of
        Some (r', f) \<Rightarrow>
          if r' = r then (f, w)
          else (BoundSetState r (allocated (host w)),
                w\<lparr>host := (host w)\<lparr>memo := Some (r, BoundSetState r (allocated (host w))),
                                     allocated := Suc (allocated (host w))\<rparr>\<rparr>)
      | None \<Rightarrow>
          (BoundSetState r (allocated (host w)),
           w\<lparr>host := (host w)\<lparr>memo := Some (r, BoundSetState r (allocated (host w))),
                                allocated := Suc (allocated (host w))\<rparr>\<rparr>))"

definition useStore ::
  "'a argument \<Rightarrow> should_update \<Rightarrow> 'a rworld \<Rightarrow> (thrown + ('a, fn) val \<times> fn) \<times> 'a rworld" where
  "useStore store shouldUpdate w =
     (if \<not> isStore store then (Inl (Error '''store' is not an instance of Store''), w)
      else case store of
        StoreObject r \<Rightarrow>
          (let current = getState r w in
           case useMemo_setState r w of
             (bound, w1) \<Rightarrow>
               (Inr (current, bound),
                w1\<lparr>host := (host w1)\<lparr>pending_effect := Some (r, shouldUpdate)\<rparr>\<rparr>))
      | Other v \<Rightarrow> (Inl (Error '''store' is not an instance of Store''), w))"

text \<open>
  Calling the function object that \<open>useStore\<close> returns as \<open>setState\<close>. Only a function
  bound by \<open>store.setState.bind(store)\<close> is a setter.
\<close>

fun call_setter ::
  "('a, fn, hooks) env \<Rightarrow> nat \<Rightarrow> fn \<Rightarrow> ('a, fn) val \<Rightarrow> 'a rworld
     \<Rightarrow> (outcome \<times> 'a rworld \<times> ('a, fn) invocation list) option" where
  "call_setter E fuel (BoundSetState r k) update w = Some (setState E fuel r update w)"
| "call_setter E fuel (UserFn f) update w = None"
| "call_setter E fuel (Subscription s k) update w = None"

text \<open>The effect and the cleanup function it returns.\<close>

definition effect ::
  "(nat \<Rightarrow> real) \<Rightarrow> ref \<Rightarrow> should_update \<Rightarrow> 'a rworld \<Rightarrow> fn unsubscribe option \<times> 'a rworld" where
  "effect random r shouldUpdate w =
     (if \<not> truthy shouldUpdate then (None, w)
      else
        (let callback = Subscription shouldUpdate (allocated (host w));
             w1 = w\<lparr>host := (host w)\<lparr>allocated := Suc (allocated (host w))\<rparr>\<rparr>
         in case subscribe r callback w1 of
           (unsubscribe, w2) \<Rightarrow>
             (Some unsubscribe,
              if \<not> inited (host w2)
              then force_render random (w2\<lparr>host := (host w2)\<lparr>inited := True\<rparr>\<rparr>)
              else w2)))"

definition cleanup :: "fn unsubscribe \<Rightarrow> 'a rworld \<Rightarrow> 'a rworld" where
  "cleanup unsubscribe w =
     (let w1 = call_unsubscribe unsubscribe w in w1\<lparr>host := (host w1)\<lparr>inited := False\<rparr>\<rparr>)"

definition run_cleanup :: "'a rworld \<Rightarrow> 'a rworld" where
  "run_cleanup w =
     (case effect_cleanup (host w) of
        None \<Rightarrow> w
      | Some unsubscribe \<Rightarrow>
          (let w1 = cleanup unsubscribe w in w1\<lparr>host := (host w1)\<lparr>effect_cleanup := None\<rparr>\<rparr>))"

text \<open>
  The host's side of \<open>useEffect\<close>: after a render, the registered effect runs if the
  component has just mounted or a dependency has changed, after the cleanup of the
  effect that ran before; when the component is removed, the last cleanup runs.
\<close>

definition commit :: "(nat \<Rightarrow> real) \<Rightarrow> 'a rworld \<Rightarrow> 'a rworld" where
  "commit random w =
     (case pending_effect (host w) of
        None \<Rightarrow> w
      | Some (r, shouldUpdate) \<Rightarrow>
          if effect_deps (host w) = Some (r, shouldUpdate)
          then w\<lparr>host := (host w)\<lparr>pending_effect := None\<rparr>\<rparr>
          else
            (case effect random r shouldUpdate (run_cleanup w) of
               (c, w1) \<Rightarrow>
                 w1\<lparr>host := (host w1)\<lparr>pending_effect := None,
                                      effect_deps := Some (r, shouldUpdate),
                                      effect_cleanup := c\<rparr>\<rparr>))"

definition unmount :: "'a rworld \<Rightarrow> 'a rworld" where
  "unmount w = run_cleanup w"

text \<open>
  One render of the component: the hook runs and, unless it threw, the host commits.
\<close>

definition render ::
  "(nat \<Rightarrow> real) \<Rightarrow> 'a argument \<Rightarrow> should_update \<Rightarrow> 'a rworld \<Rightarrow> 'a rworld" where
  "render random store shouldUpdate w =
     (case useStore store shouldUpdate w of
        (Inl e, w') \<Rightarrow> w'
      | (Inr result, w') \<Rightarrow> commit random w')"

subsection \<open>What every render leaves in the hook cells\<close>

text \<open>
  The \<open>useMemo\<close> cell is empty or holds a store together with a function object that an
  earlier render bound to that store. The flag \<open>initedRef.current\<close> is set only while a
  cleanup that clears it is waiting. Every value the \<open>useState\<close> cell has held is the
  initial \<open>-1\<close> or a value that \<open>Math.random\<close> returned.
\<close>

definition memo_ok :: "hooks \<Rightarrow> bool" where
  "memo_ok h =
     (case memo h of
        None \<Rightarrow> True
      | Some (r, f) \<Rightarrow>
          (case f of BoundSetState r' k \<Rightarrow> r' = r \<and> k < allocated h | _ \<Rightarrow> False))"

definition flag_ok :: "hooks \<Rightarrow> bool" where
  "flag_ok h = (inited h \<longrightarrow> effect_cleanup h \<noteq> None)"

definition tokens_ok :: "(nat \<Rightarrow> real) \<Rightarrow> hooks \<Rightarrow> bool" where
  "tokens_ok random h =
     (set (revision h # previous h) \<subseteq> insert (- 1) (random ` {..<draws h}))"

section \<open>Observers that leave the container alone\<close>

text \<open>
  What an observer does depends on the world it runs in. The three predicates below
  describe an observer \<open>c\<close>, called with \<open>(n, p)\<close>, in every world whose store \<open>r\<close> is \<open>S\<close>:
  it leaves that store as it is; it completes; it throws \<open>e\<close>.
\<close>

definition leaves_store ::
  "('a, 'f, 'u) env \<Rightarrow> ref \<Rightarrow> ('a, 'f) Store \<Rightarrow> 'f \<Rightarrow> ('a, 'f) val \<Rightarrow> ('a, 'f) val \<Rightarrow> bool" where
  "leaves_store E r S c n p \<longleftrightarrow>
     (\<forall>w. stores w r = S \<longrightarrow> stores (snd (run_callback E c n p w)) r = S)"

definition completes ::
  "('a, 'f, 'u) env \<Rightarrow> ref \<Rightarrow> ('a, 'f) Store \<Rightarrow> 'f \<Rightarrow> ('a, 'f) val \<Rightarrow> ('a, 'f) val \<Rightarrow> bool" where
  "completes E r S c n p \<longleftrightarrow>
     (\<forall>w. stores w r = S \<longrightarrow> fst (run_callback E c n p w) = None)"

definition throws ::
  "('a, 'f, 'u) env \<Rightarrow> ref \<Rightarrow> ('a, 'f) Store \<Rightarrow> 'f \<Rightarrow> ('a, 'f) val \<Rightarrow> ('a, 'f) val
     \<Rightarrow> thrown \<Rightarrow> bool" where
  "throws E r S c n p e \<longleftrightarrow>
     (\<forall>w. stores w r = S \<longrightarrow> fst (run_callback E c n p w) = Some e)"

text \<open>
  What the specification asks of a notification round, written on its own: the observers
  of a list are called one after another, in the order of the list, with the same two
  states, each in the world that the one before it left.
\<close>

primrec call_in_order ::
  "('a, 'f, 'u) env \<Rightarrow> 'f list \<Rightarrow> ('a, 'f) val \<Rightarrow> ('a, 'f) val \<Rightarrow> ('a, 'f, 'u) world
     \<Rightarrow> ('a, 'f, 'u) world" where
  "call_in_order E [] n p w = w"
| "call_in_order E (c # cs) n p w = call_in_order E cs n p (snd (run_callback E c n p w))"

section \<open>Concrete callers\<close>

text \<open>
  The repository's test (\<open>tests.ts\<close>) builds \<open>new Store(10)\<close> and an array
  \<open>testValue = [100, -3]\<close>, and subscribes two observers: \<open>testValue[0] += state\<close> and
  \<open>testValue[1] *= state\<close>. They are the function objects \<open>0\<close> and \<open>1\<close> below. The others
  are observers of the kinds the properties speak of: \<open>2\<close> throws, \<open>3\<close> subscribes
  observer \<open>1\<close> to the store, \<open>4\<close> calls the function that its own subscription returned.
  As an updater, \<open>0\<close> is \<open>value => value + 1\<close>, and every other function object returns
  the function object \<open>0\<close>. The function object \<open>9\<close> comes from another realm: it is the
  one function object that is not an instance of \<open>Function\<close>. The numbers of the test are
  not instances either.
\<close>

definition test_world :: "(int, nat, int list) world" where
  "test_world =
     new_Store 0 (Plain 10) \<lparr>stores = (\<lambda>_. \<lparr>state = Plain 0, callbacks = []\<rparr>), host = [100, - 3]\<rparr>"

definition test_env :: "(int, nat, int list) env" where
  "test_env =
     \<lparr>run_callback = (\<lambda>c n p w.
        if c = 0 then
          (case n of Plain v \<Rightarrow> (None, w\<lparr>host := (host w)[0 := host w ! 0 + v]\<rparr>)
           | Function _ \<Rightarrow> (None, w))
        else if c = 1 then
          (case n of Plain v \<Rightarrow> (None, w\<lparr>host := (host w)[1 := host w ! 1 * v]\<rparr>)
           | Function _ \<Rightarrow> (None, w))
        else if c = 2 then (Some (Error ''boom''), w)
        else if c = 3 then (None, snd (subscribe 0 1 w))
        else (None, w)),
      run_update = (\<lambda>f s w.
        if f = 0 then (case s of Plain v \<Rightarrow> (Inr (Plain (v + 1)), w) | Function _ \<Rightarrow> (Inr s, w))
        else (Inr (Function 0), w)),
      instance_of_Function = (\<lambda>v. case v of Function f \<Rightarrow> f \<noteq> 9 | Plain _ \<Rightarrow> False)\<rparr>"

definition unsubscribing_env :: "(int, nat, int list) env" where
  "unsubscribing_env =
     test_env\<lparr>run_callback := (\<lambda>c n p w.
        if c = 4 then (None, call_unsubscribe (Unsubscribe 0 4) w)
        else run_callback test_env c n p w)\<rparr>"

text \<open>The store of the test with the given observers subscribed, in this order.\<close>

definition subscribed :: "nat list \<Rightarrow> (int, nat, int list) world" where
  "subscribed cs = fold (\<lambda>c w. snd (subscribe 0 c w)) cs test_world"

text \<open>
  A component that has not rendered yet, next to a heap of stores holding \<open>0\<close>; a filter
  that lets an update through when the state has changed; a random source that returns
  \<open>1/2\<close> every time, and one that never returns a value twice.
\<close>

definition fresh_world :: "int rworld" where
  "fresh_world = \<lparr>stores = (\<lambda>_. \<lparr>state = Plain 0, callbacks = []\<rparr>), host = mount\<rparr>"

definition changed :: "nat \<Rightarrow> (int, fn) val \<Rightarrow> (int, fn) val \<Rightarrow> thrown + bool" where
  "changed p n q = Inr (n \<noteq> q)"

definition stuck_random :: "nat \<Rightarrow> real" where
  "stuck_random k = 1 / 2"

definition distinct_random :: "nat \<Rightarrow> real" where
  "distinct_random k = 1 / (real k + 2)"

definition no_callers :: "(int, fn, hooks) env" where
  "no_callers =
     \<lparr>run_callback = (\<lambda>f n p w. (None, w)), run_update = (\<lambda>f s w. (Inr s, w)),
      instance_of_Function = (\<lambda>v. case v of Function f \<Rightarrow> True | Plain _ \<Rightarrow> False)\<rparr>"

text \<open>
  The component renders with the store \<open>0\<close> and \<open>shouldUpdate = true\<close>; then with
  \<open>shouldUpdate = false\<close>; then with \<open>shouldUpdate = true\<close> again.
\<close>

definition associated :: "(nat \<Rightarrow> real) \<Rightarrow> int rworld" where
  "associated random = render random (StoreObject 0) (Flag True) fresh_world"



section \<open>Properties of the container\<close>

lemma stores_modify_store [simp]:
  "stores (modify_store r f w) = (stores w)(r := f (stores w r))"
  by (simp add: modify_store_def)

lemma host_modify_store [simp]: "host (modify_store r f w) = host w"
  by (simp add: modify_store_def)

lemma unsubscribe_loop_filter:
  "n \<le> length cs \<Longrightarrow>
     unsubscribe_loop c n cs = filter (\<lambda>x. x \<noteq> c) (take n cs) @ drop n cs"
proof (induction n arbitrary: cs)
  case 0
  then show ?case by simp
next
  case (Suc n)
  then have lt: "n < length cs" by simp
  have tk: "take (Suc n) cs = take n cs @ [cs ! n]"
    using lt by (simp add: take_Suc_conv_app_nth)
  show ?case
  proof (cases "cs ! n = c")
    case True
    have len: "n \<le> length (splice1 n cs)"
      using lt by (simp add: splice1_def)
    have "unsubscribe_loop c (Suc n) cs = unsubscribe_loop c n (splice1 n cs)"
      using lt True by simp
    also have "\<dots> = filter (\<lambda>x. x \<noteq> c) (take n (splice1 n cs)) @ drop n (splice1 n cs)"
      using Suc.IH [OF len] .
    also have "take n (splice1 n cs) = take n cs"
      using lt by (simp add: splice1_def)
    also have "drop n (splice1 n cs) = drop (Suc n) cs"
      using lt by (simp add: splice1_def)
    finally show ?thesis using True tk by simp
  next
    case False
    have "unsubscribe_loop c (Suc n) cs = unsubscribe_loop c n cs"
      using False by simp
    also have "\<dots> = filter (\<lambda>x. x \<noteq> c) (take n cs) @ drop n cs"
      using Suc.IH [of cs] lt by simp
    finally show ?thesis
      using False tk by (simp add: Cons_nth_drop_Suc [OF lt, symmetric])
  qed
qed

lemma unsubscribe_loop_all:
  "unsubscribe_loop c (length cs) cs = filter (\<lambda>x. x \<noteq> c) cs"
  using unsubscribe_loop_filter [of "length cs" cs c] by simp

lemma notify_completes:
  assumes "stores w r = S"
    and "\<forall>c \<in> set (drop i (callbacks S)). completes E r S c n p \<and> leaves_store E r S c n p"
    and "length (callbacks S) - i \<le> fuel"
  shows "notify E fuel r n p i w =
           (Returned, call_in_order E (drop i (callbacks S)) n p w,
            map (\<lambda>c. (c, n, p)) (drop i (callbacks S))) \<and>
         stores (call_in_order E (drop i (callbacks S)) n p w) r = S"
  using assms
proof (induction fuel arbitrary: i w)
  case 0
  then show ?case by simp
next
  case (Suc fuel)
  show ?case
  proof (cases "i < length (callbacks S)")
    case False
    then show ?thesis using Suc.prems(1) by simp
  next
    case True
    let ?c = "callbacks S ! i"
    have dr: "drop i (callbacks S) = ?c # drop (Suc i) (callbacks S)"
      using True by (simp add: Cons_nth_drop_Suc)
    have cin: "?c \<in> set (drop i (callbacks S))"
      by (simp add: dr)
    obtain t w1 where run: "run_callback E ?c n p w = (t, w1)"
      by (cases "run_callback E ?c n p w")
    have t: "t = None"
      using Suc.prems(1,2) cin run by (fastforce simp: completes_def)
    have w1: "stores w1 r = S"
      using Suc.prems(1,2) cin run by (fastforce simp: leaves_store_def)
    have rest: "\<forall>c \<in> set (drop (Suc i) (callbacks S)).
                  completes E r S c n p \<and> leaves_store E r S c n p"
      using Suc.prems(2) by (simp add: dr)
    have "length (callbacks S) - Suc i \<le> fuel"
      using Suc.prems(3) by simp
    from Suc.IH [OF w1 rest this] have
      ih: "notify E fuel r n p (Suc i) w1 =
             (Returned, call_in_order E (drop (Suc i) (callbacks S)) n p w1,
              map (\<lambda>c. (c, n, p)) (drop (Suc i) (callbacks S)))"
      and st: "stores (call_in_order E (drop (Suc i) (callbacks S)) n p w1) r = S"
      by blast+
    have step: "call_in_order E (drop i (callbacks S)) n p w
                  = call_in_order E (drop (Suc i) (callbacks S)) n p w1"
      using run by (simp add: dr)
    have "notify E (Suc fuel) r n p i w =
            (Returned, call_in_order E (drop i (callbacks S)) n p w,
             map (\<lambda>c. (c, n, p)) (drop i (callbacks S)))"
      using True Suc.prems(1) run t ih by (simp add: step) (simp add: dr)
    then show ?thesis using st step by simp
  qed
qed

lemma notify_throws:
  assumes "stores w r = S"
    and "callbacks S = pre @ t # post"
    and "\<forall>c \<in> set (drop i pre). completes E r S c n p \<and> leaves_store E r S c n p"
    and "throws E r S t n p e" and "leaves_store E r S t n p"
    and "i \<le> length pre" and "length pre - i < fuel"
  shows "\<exists>w'. notify E fuel r n p i w =
            (Threw e, w', map (\<lambda>c. (c, n, p)) (drop i pre @ [t])) \<and> stores w' r = S"
  using assms
proof (induction fuel arbitrary: i w)
  case 0
  then show ?case by simp
next
  case (Suc fuel)
  have lt: "i < length (callbacks S)"
    using Suc.prems(2,6) by simp
  show ?case
  proof (cases "i = length pre")
    case True
    have c: "callbacks S ! i = t"
      using True Suc.prems(2) by simp
    obtain x w1 where run: "run_callback E t n p w = (x, w1)"
      by (cases "run_callback E t n p w")
    have x: "x = Some e"
      using Suc.prems(1,4) run by (fastforce simp: throws_def)
    have w1: "stores w1 r = S"
      using Suc.prems(1,5) run by (fastforce simp: leaves_store_def)
    have "notify E (Suc fuel) r n p i w = (Threw e, w1, map (\<lambda>c. (c, n, p)) (drop i pre @ [t]))"
      using lt Suc.prems(1) c run x True by simp
    then show ?thesis using w1 by blast
  next
    case False
    then have ilt: "i < length pre" using Suc.prems(6) by simp
    let ?c = "pre ! i"
    have c: "callbacks S ! i = ?c"
      using ilt Suc.prems(2) by (simp add: nth_append)
    have dr: "drop i pre = ?c # drop (Suc i) pre"
      using ilt by (simp add: Cons_nth_drop_Suc)
    obtain x w1 where run: "run_callback E ?c n p w = (x, w1)"
      by (cases "run_callback E ?c n p w")
    have cin: "?c \<in> set (drop i pre)" by (simp add: dr)
    have x: "x = None"
      using Suc.prems(1,3) cin run by (fastforce simp: completes_def)
    have w1: "stores w1 r = S"
      using Suc.prems(1,3) cin run by (fastforce simp: leaves_store_def)
    have rest: "\<forall>c \<in> set (drop (Suc i) pre). completes E r S c n p \<and> leaves_store E r S c n p"
      using Suc.prems(3) by (simp add: dr)
    have le: "Suc i \<le> length pre" using ilt by simp
    have fu: "length pre - Suc i < fuel" using Suc.prems(7) ilt by simp
    from Suc.IH [OF w1 Suc.prems(2) rest Suc.prems(4,5) le fu] obtain w' where
      ih: "notify E fuel r n p (Suc i) w1 =
             (Threw e, w', map (\<lambda>c. (c, n, p)) (drop (Suc i) pre @ [t]))"
      and w': "stores w' r = S"
      by blast
    have "notify E (Suc fuel) r n p i w =
            (Threw e, w', map (\<lambda>c. (c, n, p)) (drop i pre @ [t]))"
      using lt Suc.prems(1) c run x ih dr by simp
    then show ?thesis using w' by blast
  qed
qed

lemma setState_completes:
  assumes "eval_update E r update w = (Inr n, w1)"
    and "S = (stores w1 r)\<lparr>state := n\<rparr>"
    and "\<forall>c \<in> set (callbacks S).
           completes E r S c n (state (stores w r)) \<and> leaves_store E r S c n (state (stores w r))"
    and "length (callbacks S) \<le> fuel"
  shows "setState E fuel r update w =
           (Returned,
            call_in_order E (callbacks S) n (state (stores w r))
              (modify_store r (\<lambda>s. s\<lparr>state := n\<rparr>) w1),
            map (\<lambda>c. (c, n, state (stores w r))) (callbacks S)) \<and>
         stores (call_in_order E (callbacks S) n (state (stores w r))
                   (modify_store r (\<lambda>s. s\<lparr>state := n\<rparr>) w1)) r = S"
proof -
  let ?w2 = "modify_store r (\<lambda>s. s\<lparr>state := n\<rparr>) w1"
  have w2: "stores ?w2 r = S"
    using assms(2) by simp
  have obs: "\<forall>c \<in> set (drop 0 (callbacks S)).
           completes E r S c n (state (stores w r)) \<and> leaves_store E r S c n (state (stores w r))"
    using assms(3) by simp
  have fu: "length (callbacks S) - 0 \<le> fuel"
    using assms(4) by simp
  from notify_completes [OF w2 obs fu] show ?thesis
    using assms(1) by (simp add: setState_def)
qed

lemma notify_never_calls:
  assumes "\<forall>c n p w0. cb \<notin> set (callbacks (stores w0 r)) \<longrightarrow>
             cb \<notin> set (callbacks (stores (snd (run_callback E c n p w0)) r))"
    and "cb \<notin> set (callbacks (stores w r))"
    and "notify E fuel r n p i w = (out, w', calls)"
  shows "cb \<notin> fst ` set calls \<and> cb \<notin> set (callbacks (stores w' r))"
  using assms(2,3)
proof (induction fuel arbitrary: i w out w' calls)
  case 0
  then show ?case by (auto split: if_splits)
next
  case (Suc fuel)
  show ?case
  proof (cases "i < length (callbacks (stores w r))")
    case False
    then show ?thesis using Suc.prems by auto
  next
    case True
    let ?c = "callbacks (stores w r) ! i"
    have neq: "?c \<noteq> cb"
      using True Suc.prems(1) by (metis nth_mem)
    obtain x w1 where run: "run_callback E ?c n p w = (x, w1)"
      by (cases "run_callback E ?c n p w")
    have w1: "cb \<notin> set (callbacks (stores w1 r))"
      using assms(1) Suc.prems(1) run by (metis snd_conv)
    show ?thesis
    proof (cases x)
      case (Some e)
      then show ?thesis
        using True run Suc.prems(2) neq w1 by auto
    next
      case None
      obtain o2 w2 c2 where rec: "notify E fuel r n p (Suc i) w1 = (o2, w2, c2)"
        by (cases "notify E fuel r n p (Suc i) w1")
      have "cb \<notin> fst ` set c2 \<and> cb \<notin> set (callbacks (stores w2 r))"
        using Suc.IH [OF w1 rec] .
      moreover have "calls = (?c, n, p) # c2" and "w' = w2"
        using True run None rec Suc.prems(2) by auto
      ultimately show ?thesis using neq by auto
    qed
  qed
qed

lemma call_unsubscribe_callbacks:
  "callbacks (stores (call_unsubscribe (Unsubscribe r cb) w) r)
     = filter (\<lambda>c. c \<noteq> cb) (callbacks (stores w r))"
  by (simp add: unsubscribe_loop_all)

lemma call_unsubscribe_absent:
  assumes "cb \<notin> set (callbacks (stores w r))"
  shows "call_unsubscribe (Unsubscribe r cb) w = w"
proof -
  have "filter (\<lambda>c. c \<noteq> cb) (callbacks (stores w r)) = callbacks (stores w r)"
    using assms by (auto simp: filter_id_conv)
  then show ?thesis
    by (simp add: unsubscribe_loop_all modify_store_def)
qed

lemma notify_appending:
  assumes "\<forall>c n p w0. \<exists>added.
             callbacks (stores (snd (run_callback E c n p w0)) r) = callbacks (stores w0 r) @ added"
    and "notify E fuel r n p i w = (Returned, w', calls)"
  shows "\<exists>added. callbacks (stores w' r) = callbacks (stores w r) @ added \<and>
           calls = map (\<lambda>c. (c, n, p)) (drop i (callbacks (stores w r) @ added))"
  using assms(2)
proof (induction fuel arbitrary: i w calls)
  case 0
  then have "\<not> i < length (callbacks (stores w r))" and "w' = w" and "calls = []"
    by (auto split: if_splits)
  then show ?case by simp
next
  case (Suc fuel)
  show ?case
  proof (cases "i < length (callbacks (stores w r))")
    case False
    then have "w' = w" and "calls = []"
      using Suc.prems by auto
    then show ?thesis using False by simp
  next
    case True
    let ?cs = "callbacks (stores w r)"
    let ?c = "?cs ! i"
    obtain x w1 where run: "run_callback E ?c n p w = (x, w1)"
      by (cases "run_callback E ?c n p w")
    obtain a1 where a1: "callbacks (stores w1 r) = ?cs @ a1"
      using assms(1) run by (metis snd_conv)
    have x: "x = None"
      using True run Suc.prems by (cases x) auto
    obtain o2 w2 c2 where rec: "notify E fuel r n p (Suc i) w1 = (o2, w2, c2)"
      by (cases "notify E fuel r n p (Suc i) w1")
    have eqs: "o2 = Returned" "w2 = w'" "calls = (?c, n, p) # c2"
      using True run x rec Suc.prems by auto
    from Suc.IH [of "Suc i" w1 c2] rec eqs obtain a2 where
      a2: "callbacks (stores w' r) = callbacks (stores w1 r) @ a2"
      and c2: "c2 = map (\<lambda>c. (c, n, p)) (drop (Suc i) (callbacks (stores w1 r) @ a2))"
      by auto
    have len: "i < length (?cs @ a1 @ a2)"
      using True by simp
    have "drop i (?cs @ a1 @ a2) = ?c # drop (Suc i) (?cs @ a1 @ a2)"
      using Cons_nth_drop_Suc [OF len] True by (simp add: nth_append)
    then have "calls = map (\<lambda>c. (c, n, p)) (drop i (?cs @ a1 @ a2))"
      using eqs(3) c2 a1 by simp
    moreover have "callbacks (stores w' r) = ?cs @ a1 @ a2"
      using a1 a2 by simp
    ultimately show ?thesis by blast
  qed
qed

lemma stores_subscribed:
  "stores (subscribed cs) 0 = \<lparr>state = Plain 10, callbacks = cs\<rparr>"
proof -
  have "stores (fold (\<lambda>c w. snd (subscribe 0 c w)) cs w) 0
          = (stores w 0)\<lparr>callbacks := callbacks (stores w 0) @ cs\<rparr>" for w :: "(int, nat, int list) world"
    by (induction cs arbitrary: w) (simp_all add: subscribe_def)
  then show ?thesis
    by (simp add: subscribed_def test_world_def new_Store_def)
qed

lemma host_subscribed: "host (subscribed cs) = [100, - 3]"
proof -
  have "host (fold (\<lambda>c w. snd (subscribe 0 c w)) cs w) = host w" for w :: "(int, nat, int list) world"
    by (induction cs arbitrary: w) (simp_all add: subscribe_def)
  then show ?thesis
    by (simp add: subscribed_def test_world_def new_Store_def)
qed

lemma instance_of_test_env [simp]:
  "instance_of_Function test_env (Plain v) = False"
  "instance_of_Function test_env (Function f) = (f \<noteq> 9)"
  "instance_of_Function unsubscribing_env (Plain v) = False"
  "instance_of_Function unsubscribing_env (Function f) = (f \<noteq> 9)"
  by (simp_all add: test_env_def unsubscribing_env_def)

text \<open>
  The repository's test, step by step: \<open>setState(2)\<close>, \<open>setState(-25)\<close>, the second
  observer unsubscribes, \<open>setState(12)\<close>. The assertions of the test are the equations
  on the state, on \<open>testValue\<close> and on the number of observers.
\<close>

lemma repository_test:
  fixes w1 w2 w3 w4 :: "(int, nat, int list) world"
  assumes "w1 = fst (snd (setState test_env 2 0 (Plain 2) (subscribed [0, 1])))"
    and "w2 = fst (snd (setState test_env 2 0 (Plain (- 25)) w1))"
    and "w3 = call_unsubscribe (Unsubscribe 0 1) w2"
    and "w4 = fst (snd (setState test_env 2 0 (Plain 12) w3))"
  shows "getState 0 (subscribed [0, 1]) = Plain 10"
    and "length (callbacks (stores (subscribed [0, 1]) 0)) = 2"
    and "getState 0 w1 = Plain 2" and "host w1 = [102, - 6]"
    and "getState 0 w2 = Plain (- 25)" and "host w2 = [77, 150]"
    and "length (callbacks (stores w3 0)) = 1"
    and "getState 0 w4 = Plain 12" and "host w4 = [89, 150]"
  using assms
  by (simp_all add: setState_def eval_update_def stores_subscribed host_subscribed test_env_def
      getState_def unsubscribe_loop_all eval_nat_numeral Let_def)

text \<open>
  Removal during a round acts on the array the round is walking. Observer \<open>4\<close> removes
  itself while it is being called; observer \<open>0\<close>, registered after it, moves to the index
  the round has just left and is not called in that round.
\<close>

lemma removal_during_round_skips_next:
  "callbacks (stores (subscribed [4, 0]) 0) = [4, 0] \<and>
   setState unsubscribing_env 5 0 (Plain 2) (subscribed [4, 0])
     = (Returned, fst (snd (setState unsubscribing_env 5 0 (Plain 2) (subscribed [4, 0]))),
        [(4, Plain 2, Plain 10)]) \<and>
   callbacks (stores (fst (snd (setState unsubscribing_env 5 0 (Plain 2) (subscribed [4, 0])))) 0)
     = [0]"
  by (simp add: setState_def eval_update_def stores_subscribed unsubscribing_env_def test_env_def
      unsubscribe_loop_all eval_nat_numeral Let_def)

text \<open>
  Registered twice, observer \<open>4\<close> is called once: its first call removes both entries
  before the round reaches the second.
\<close>

lemma removal_during_round_drops_later_entry:
  "callbacks (stores (subscribed [4, 4]) 0) = [4, 4] \<and>
   setState unsubscribing_env 5 0 (Plain 2) (subscribed [4, 4])
     = (Returned, fst (snd (setState unsubscribing_env 5 0 (Plain 2) (subscribed [4, 4]))),
        [(4, Plain 2, Plain 10)]) \<and>
   callbacks (stores (fst (snd (setState unsubscribing_env 5 0 (Plain 2) (subscribed [4, 4])))) 0)
     = []"
  by (simp add: setState_def eval_update_def stores_subscribed unsubscribing_env_def test_env_def
      unsubscribe_loop_all eval_nat_numeral Let_def)

section \<open>The claims about the container\<close>

text \<open>
  C1. The claim: an observer registered while a notification round is in progress is not
  invoked during that round, because the round iterates a snapshot of the observer
  sequence. The code takes no snapshot. In the store of the test with the single observer
  \<open>3\<close>, which subscribes observer \<open>1\<close>, the call \<open>setState(2)\<close> invokes \<open>3\<close> and then, in
  the same round, the observer \<open>1\<close> that was registered during it.
\<close>

theorem snapshot_counterexample:
  "callbacks (stores (subscribed [3]) 0) = [3] \<and>
   fst (setState test_env 5 0 (Plain 2) (subscribed [3])) = Returned \<and>
   snd (snd (setState test_env 5 0 (Plain 2) (subscribed [3])))
     = [(3, Plain 2, Plain 10), (1, Plain 2, Plain 10)]"
  by (simp add: setState_def eval_update_def stores_subscribed test_env_def subscribe_def
      eval_nat_numeral Let_def)

text \<open>
  C1, as the code has it. The round walks the live array by index and reads its length
  again before every step. When the observers only append to the array (they subscribe,
  or leave it alone) and the round returns, the observers invoked are those registered
  when the round began followed by those registered during the round, each once, in
  registration order.
\<close>

theorem setState_iterates_live_array:
  assumes "\<forall>c n p w0. \<exists>added.
             callbacks (stores (snd (run_callback E c n p w0)) r) = callbacks (stores w0 r) @ added"
    and "eval_update E r update w = (Inr nextState, w1)"
    and "setState E fuel r update w = (Returned, w', calls)"
  shows "\<exists>added. callbacks (stores w' r) = callbacks (stores w1 r) @ added \<and>
           calls = map (\<lambda>c. (c, nextState, state (stores w r))) (callbacks (stores w1 r) @ added)"
proof -
  let ?w2 = "modify_store r (\<lambda>s. s\<lparr>state := nextState\<rparr>) w1"
  have "notify E fuel r nextState (state (stores w r)) 0 ?w2 = (Returned, w', calls)"
    using assms(2,3) by (simp add: setState_def)
  from notify_appending [OF assms(1) this] show ?thesis by simp
qed

theorem setState_iterates_live_array_witness:
  "(\<exists>added. callbacks (stores (fst (snd (setState test_env 5 0 (Plain 2) (subscribed [3])))) 0)
              = [3] @ added \<and>
     snd (snd (setState test_env 5 0 (Plain 2) (subscribed [3])))
       = map (\<lambda>c. (c, Plain 2, Plain 10)) ([3] @ added)) \<and>
   callbacks (stores (fst (snd (setState test_env 5 0 (Plain 2) (subscribed [3])))) 0) = [3, 1]"
proof -
  have app: "\<forall>c n p w0. \<exists>added.
      callbacks (stores (snd (run_callback test_env c n p w0)) 0) = callbacks (stores w0 0) @ added"
    by (auto simp: test_env_def subscribe_def split: val.splits)
  have upd: "eval_update test_env 0 (Plain 2) (subscribed [3]) = (Inr (Plain 2), subscribed [3])"
    by (simp add: eval_update_def)
  obtain w' calls where
    run: "setState test_env 5 0 (Plain 2) (subscribed [3]) = (Returned, w', calls)"
    by (simp add: setState_def eval_update_def stores_subscribed test_env_def subscribe_def
        eval_nat_numeral Let_def)
  have after: "callbacks (stores (fst (snd (setState test_env 5 0 (Plain 2) (subscribed [3])))) 0)
      = [3, 1]"
    by (simp add: setState_def eval_update_def stores_subscribed test_env_def subscribe_def
        eval_nat_numeral Let_def)
  from setState_iterates_live_array [OF app upd run] after show ?thesis
    by (simp add: run stores_subscribed)
qed

text \<open>
  C2. The claim: for every container with \<open>n\<close> registered observers, \<open>setState(update)\<close>
  takes \<open>nextState = update(s)\<close> if \<open>update\<close> is callable and \<open>nextState = update\<close> otherwise,
  assigns it, and invokes each of the \<open>n\<close> observers exactly once, in registration order.
  Two rounds of the code do otherwise. With the observers \<open>4\<close> and \<open>1\<close> registered,
  \<open>setState(2)\<close> calls \<open>4\<close>, which removes itself from the array the round is walking;
  \<open>1\<close> moves to the index the round has left and is not called: \<open>testValue\<close> is still
  \<open>[100, -3]\<close>. With the observers \<open>0\<close>, \<open>2\<close> and \<open>1\<close> registered, \<open>2\<close> throws and \<open>1\<close> is
  not called. And the function object \<open>9\<close> can be called, and called with \<open>10\<close> it
  returns the function object \<open>0\<close>, but it is not an instance of \<open>Function\<close>: \<open>setState\<close>
  stores it as it is.
\<close>

theorem every_observer_once_counterexample:
  "callbacks (stores (subscribed [4, 1]) 0) = [4, 1] \<and>
   fst (setState unsubscribing_env 5 0 (Plain 2) (subscribed [4, 1])) = Returned \<and>
   snd (snd (setState unsubscribing_env 5 0 (Plain 2) (subscribed [4, 1])))
     = [(4, Plain 2, Plain 10)] \<and>
   host (fst (snd (setState unsubscribing_env 5 0 (Plain 2) (subscribed [4, 1])))) = [100, - 3] \<and>
   callbacks (stores (subscribed [0, 2, 1]) 0) = [0, 2, 1] \<and>
   fst (setState test_env 5 0 (Plain 2) (subscribed [0, 2, 1])) = Threw (Error ''boom'') \<and>
   snd (snd (setState test_env 5 0 (Plain 2) (subscribed [0, 2, 1])))
     = [(0, Plain 2, Plain 10), (2, Plain 2, Plain 10)] \<and>
   fst (run_update test_env 9 (Plain 10) (subscribed [])) = Inr (Function 0) \<and>
   fst (setState test_env 5 0 (Function 9) (subscribed [])) = Returned \<and>
   getState 0 (fst (snd (setState test_env 5 0 (Function 9) (subscribed [])))) = Function 9"
  by (simp add: setState_def eval_update_def stores_subscribed host_subscribed
      unsubscribing_env_def test_env_def getState_def unsubscribe_loop_all eval_nat_numeral Let_def)

text \<open>
  C2, as the code has it. \<open>setState(update)\<close> takes \<open>nextState = update(s)\<close> when \<open>update\<close> is
  an instance of \<open>Function\<close> and \<open>nextState = update\<close> otherwise, keeps the old state as
  \<open>prevState\<close> and assigns the new one. When the updater and the observers complete and
  leave the container as it is, the round then calls each of the registered observers
  once, in registration order, with \<open>(nextState, prevState)\<close>, each in the world the one
  before it left, and returns; afterwards \<open>getState()\<close> is \<open>nextState\<close>.
\<close>

theorem setState_notifies_every_observer_once:
  assumes "if instance_of_Function E update
           then \<exists>f. update = Function f \<and>
                  run_update E f (state (stores w r)) w = (Inr nextState, w1) \<and>
                  stores w1 r = stores w r
           else nextState = update \<and> w1 = w"
    and "\<forall>c \<in> set (callbacks (stores w r)).
           completes E r ((stores w r)\<lparr>state := nextState\<rparr>) c nextState (state (stores w r)) \<and>
           leaves_store E r ((stores w r)\<lparr>state := nextState\<rparr>) c nextState (state (stores w r))"
    and "length (callbacks (stores w r)) \<le> fuel"
  shows "setState E fuel r update w =
           (Returned,
            call_in_order E (callbacks (stores w r)) nextState (state (stores w r))
              (modify_store r (\<lambda>s. s\<lparr>state := nextState\<rparr>) w1),
            map (\<lambda>c. (c, nextState, state (stores w r))) (callbacks (stores w r))) \<and>
         getState r (fst (snd (setState E fuel r update w))) = nextState \<and>
         callbacks (stores (fst (snd (setState E fuel r update w))) r) = callbacks (stores w r)"
proof -
  have upd: "eval_update E r update w = (Inr nextState, w1)" and w1: "stores w1 r = stores w r"
    using assms(1) by (auto simp: eval_update_def split: if_splits)
  let ?S = "(stores w1 r)\<lparr>state := nextState\<rparr>"
  have obs: "\<forall>c \<in> set (callbacks ?S).
           completes E r ?S c nextState (state (stores w r)) \<and>
           leaves_store E r ?S c nextState (state (stores w r))"
    using assms(2) w1 by simp
  have fu: "length (callbacks ?S) \<le> fuel"
    using assms(3) w1 by simp
  from setState_completes [OF upd refl obs fu] show ?thesis
    using w1 by (simp add: getState_def)
qed

theorem setState_notifies_every_observer_once_witness:
  "setState test_env 2 0 (Function 0) (subscribed [0, 1]) =
     (Returned, fst (snd (setState test_env 2 0 (Function 0) (subscribed [0, 1]))),
      [(0, Plain 11, Plain 10), (1, Plain 11, Plain 10)]) \<and>
   host (fst (snd (setState test_env 2 0 (Function 0) (subscribed [0, 1])))) = [111, - 33] \<and>
   getState 0 (fst (snd (setState test_env 2 0 (Function 0) (subscribed [0, 1])))) = Plain 11 \<and>
   callbacks (stores (fst (snd (setState test_env 2 0 (Function 0) (subscribed [0, 1])))) 0) = [0, 1]"
proof -
  let ?w = "subscribed [0, 1]"
  have upd: "if instance_of_Function test_env (Function 0)
             then \<exists>f. (Function 0 :: (int, nat) val) = Function f \<and>
                    run_update test_env f (state (stores ?w 0)) ?w = (Inr (Plain 11), ?w) \<and>
                    stores ?w 0 = stores ?w 0
             else Plain 11 = (Function 0 :: (int, nat) val) \<and> ?w = ?w"
    by (simp add: test_env_def stores_subscribed)
  have obs: "\<forall>c \<in> set (callbacks (stores ?w 0)).
      completes test_env 0 ((stores ?w 0)\<lparr>state := Plain 11\<rparr>) c (Plain 11) (state (stores ?w 0)) \<and>
      leaves_store test_env 0 ((stores ?w 0)\<lparr>state := Plain 11\<rparr>) c (Plain 11)
        (state (stores ?w 0))"
    by (simp add: stores_subscribed completes_def leaves_store_def test_env_def)
  have fu: "length (callbacks (stores ?w 0)) \<le> 2"
    by (simp add: stores_subscribed)
  have run: "host (call_in_order test_env [0, 1] (Plain 11) (Plain 10)
               (modify_store 0 (\<lambda>s. s\<lparr>state := Plain 11\<rparr>) ?w)) = [111, - 33]"
    by (simp add: test_env_def host_subscribed)
  note round = setState_notifies_every_observer_once [OF upd obs fu]
  have eq: "setState test_env 2 0 (Function 0) ?w =
      (Returned,
       call_in_order test_env [0, 1] (Plain 11) (Plain 10)
         (modify_store 0 (\<lambda>s. s\<lparr>state := Plain 11\<rparr>) ?w),
       [(0, Plain 11, Plain 10), (1, Plain 11, Plain 10)])"
    using round [THEN conjunct1] by (simp only: stores_subscribed Store.simps list.map)
  have a: "setState test_env 2 0 (Function 0) ?w =
      (Returned, fst (snd (setState test_env 2 0 (Function 0) ?w)),
       [(0, Plain 11, Plain 10), (1, Plain 11, Plain 10)])"
    by (simp only: eq fst_conv snd_conv)
  have b: "host (fst (snd (setState test_env 2 0 (Function 0) ?w))) = [111, - 33]"
    using run by (simp only: eq fst_conv snd_conv)
  have c: "getState 0 (fst (snd (setState test_env 2 0 (Function 0) ?w))) = Plain 11"
    using round [THEN conjunct2, THEN conjunct1] .
  have d: "callbacks (stores (fst (snd (setState test_env 2 0 (Function 0) ?w))) 0) = [0, 1]"
    using round [THEN conjunct2, THEN conjunct2] by (simp only: stores_subscribed Store.simps)
  show ?thesis using a b c d by blast
qed

text \<open>
  C3. Calling a function returned by \<open>subscribe(cb)\<close> removes every entry of the observer
  list that is \<open>cb\<close>, however many times \<open>cb\<close> was registered and whichever of the
  returned functions is called: they all capture the store and \<open>cb\<close> and nothing else.
  From then on \<open>setState\<close> does not invoke \<open>cb\<close>, as long as nobody registers it again, and
  calling the function once more changes nothing.
\<close>

theorem unsubscribe_removes_every_occurrence:
  assumes "\<forall>c n p w0. cb \<notin> set (callbacks (stores w0 r)) \<longrightarrow>
             cb \<notin> set (callbacks (stores (snd (run_callback E c n p w0)) r))"
    and "\<forall>f s w0. cb \<notin> set (callbacks (stores w0 r)) \<longrightarrow>
             cb \<notin> set (callbacks (stores (snd (run_update E f s w0)) r))"
    and "w1 = call_unsubscribe (fst (subscribe r cb w0)) w"
  shows "callbacks (stores w1 r) = filter (\<lambda>c. c \<noteq> cb) (callbacks (stores w r)) \<and>
         count_list (callbacks (stores w1 r)) cb = 0 \<and>
         cb \<notin> fst ` set (snd (snd (setState E fuel r update w1))) \<and>
         cb \<notin> set (callbacks (stores (fst (snd (setState E fuel r update w1))) r)) \<and>
         call_unsubscribe (fst (subscribe r cb w0)) w1 = w1"
proof -
  have un: "fst (subscribe r cb w0) = Unsubscribe r cb"
    by (simp add: subscribe_def)
  have cs: "callbacks (stores w1 r) = filter (\<lambda>c. c \<noteq> cb) (callbacks (stores w r))"
    using assms(3) un call_unsubscribe_callbacks [of r cb w] by simp
  then have absent: "cb \<notin> set (callbacks (stores w1 r))"
    by simp
  then have cnt: "count_list (callbacks (stores w1 r)) cb = 0"
    by (simp add: count_list_0_iff)
  have again: "call_unsubscribe (fst (subscribe r cb w0)) w1 = w1"
    using un call_unsubscribe_absent [OF absent] by simp
  obtain out w2 calls where run: "setState E fuel r update w1 = (out, w2, calls)"
    by (cases "setState E fuel r update w1")
  have "cb \<notin> fst ` set calls \<and> cb \<notin> set (callbacks (stores w2 r))"
  proof (cases "eval_update E r update w1")
    case (Pair res w3)
    have "w3 = w1 \<or> (\<exists>f. run_update E f (state (stores w1 r)) w1 = (res, w3))"
      using Pair by (auto simp: eval_update_def split: if_splits val.splits)
    then have w3: "cb \<notin> set (callbacks (stores w3 r))"
      using assms(2) absent by (metis snd_conv)
    show ?thesis
    proof (cases res)
      case (Inl e)
      then show ?thesis using run Pair w3 by (auto simp: setState_def)
    next
      case (Inr n)
      let ?w4 = "modify_store r (\<lambda>s. s\<lparr>state := n\<rparr>) w3"
      have w4: "cb \<notin> set (callbacks (stores ?w4 r))"
        using w3 by simp
      have "notify E fuel r n (state (stores w1 r)) 0 ?w4 = (out, w2, calls)"
        using run Pair Inr by (simp add: setState_def)
      from notify_never_calls [OF assms(1) w4 this] show ?thesis .
    qed
  qed
  then show ?thesis
    using cs cnt again run by simp
qed

theorem unsubscribe_removes_every_occurrence_witness:
  "callbacks (stores (subscribed [0, 1, 0]) 0) = [0, 1, 0] \<and>
   callbacks (stores (call_unsubscribe (fst (subscribe 0 0 test_world)) (subscribed [0, 1, 0])) 0)
     = [1] \<and>
   0 \<notin> fst ` set (snd (snd (setState unsubscribing_env 3 0 (Plain 2)
           (call_unsubscribe (fst (subscribe 0 0 test_world)) (subscribed [0, 1, 0]))))) \<and>
   call_unsubscribe (fst (subscribe 0 0 test_world))
       (call_unsubscribe (fst (subscribe 0 0 test_world)) (subscribed [0, 1, 0]))
     = call_unsubscribe (fst (subscribe 0 0 test_world)) (subscribed [0, 1, 0])"
proof -
  have cbs: "\<forall>c n p w0. (0::nat) \<notin> set (callbacks (stores w0 0)) \<longrightarrow>
      0 \<notin> set (callbacks (stores (snd (run_callback unsubscribing_env c n p w0)) 0))"
    by (auto simp: unsubscribing_env_def test_env_def subscribe_def unsubscribe_loop_all
        split: val.splits)
  have ups: "\<forall>f s w0. (0::nat) \<notin> set (callbacks (stores w0 0)) \<longrightarrow>
      0 \<notin> set (callbacks (stores (snd (run_update unsubscribing_env f s w0)) 0))"
    by (auto simp: unsubscribing_env_def test_env_def split: val.splits)
  from unsubscribe_removes_every_occurrence [OF cbs ups refl,
      of test_world "subscribed [0, 1, 0]" 3 "Plain 2"]
  show ?thesis
    by (simp add: stores_subscribed)
qed

text \<open>
  C4. When an observer throws during a notification round, \<open>setState\<close> ends with that
  very exception, the observers after it in the list are not called, and the state of the
  container is the new one, which was assigned before the round began. The observers
  \<open>pre\<close> before the thrower \<open>t\<close> complete, and they and \<open>t\<close> leave the container as it is;
  nothing is asked of the observers \<open>post\<close> after it.
\<close>

theorem setState_observer_exception_propagates:
  assumes "eval_update E r update w = (Inr nextState, w1)"
    and "callbacks (stores w1 r) = pre @ t # post"
    and "\<forall>c \<in> set pre.
           completes E r ((stores w1 r)\<lparr>state := nextState\<rparr>) c nextState (state (stores w r)) \<and>
           leaves_store E r ((stores w1 r)\<lparr>state := nextState\<rparr>) c nextState (state (stores w r))"
    and "throws E r ((stores w1 r)\<lparr>state := nextState\<rparr>) t nextState (state (stores w r)) e"
    and "leaves_store E r ((stores w1 r)\<lparr>state := nextState\<rparr>) t nextState (state (stores w r))"
    and "length pre < fuel"
  shows "\<exists>w'. setState E fuel r update w =
            (Threw e, w', map (\<lambda>c. (c, nextState, state (stores w r))) (pre @ [t])) \<and>
          getState r w' = nextState"
proof -
  let ?S = "(stores w1 r)\<lparr>state := nextState\<rparr>"
  let ?w2 = "modify_store r (\<lambda>s. s\<lparr>state := nextState\<rparr>) w1"
  have w2: "stores ?w2 r = ?S" by simp
  have cs: "callbacks ?S = pre @ t # post"
    using assms(2) by simp
  have obs: "\<forall>c \<in> set (drop 0 pre).
           completes E r ?S c nextState (state (stores w r)) \<and>
           leaves_store E r ?S c nextState (state (stores w r))"
    using assms(3) by simp
  have le: "0 \<le> length pre" by simp
  have fu: "length pre - 0 < fuel"
    using assms(6) by simp
  from notify_throws [OF w2 cs obs assms(4,5) le fu] obtain w' where
    "notify E fuel r nextState (state (stores w r)) 0 ?w2 =
       (Threw e, w', map (\<lambda>c. (c, nextState, state (stores w r))) (drop 0 pre @ [t]))"
    and "stores w' r = ?S"
    by blast
  then show ?thesis
    using assms(1) by (auto simp: setState_def getState_def)
qed

theorem setState_observer_exception_propagates_witness:
  "\<exists>w'. setState test_env 3 0 (Plain 2) (subscribed [0, 2, 1]) =
           (Threw (Error ''boom''), w', [(0, Plain 2, Plain 10), (2, Plain 2, Plain 10)]) \<and>
         getState 0 w' = Plain 2"
proof -
  let ?w = "subscribed [0, 2, 1]"
  have upd: "eval_update test_env 0 (Plain 2) ?w = (Inr (Plain 2), ?w)"
    by (simp add: eval_update_def)
  have cs: "callbacks (stores ?w 0) = [0] @ 2 # [1]"
    by (simp add: stores_subscribed)
  have pre: "\<forall>c \<in> set [0].
      completes test_env 0 ((stores ?w 0)\<lparr>state := Plain 2\<rparr>) c (Plain 2) (state (stores ?w 0)) \<and>
      leaves_store test_env 0 ((stores ?w 0)\<lparr>state := Plain 2\<rparr>) c (Plain 2) (state (stores ?w 0))"
    by (simp add: completes_def leaves_store_def test_env_def)
  have thr: "throws test_env 0 ((stores ?w 0)\<lparr>state := Plain 2\<rparr>) 2 (Plain 2)
      (state (stores ?w 0)) (Error ''boom'')"
    by (simp add: throws_def test_env_def)
  have lv: "leaves_store test_env 0 ((stores ?w 0)\<lparr>state := Plain 2\<rparr>) 2 (Plain 2)
      (state (stores ?w 0))"
    by (simp add: leaves_store_def test_env_def)
  have fu: "length [0::nat] < 3" by simp
  from setState_observer_exception_propagates [OF upd cs pre thr lv fu] show ?thesis
    by (simp add: stores_subscribed)
qed

text \<open>
  C8. The claim: even when the new state equals the old one, every registered observer is
  still invoked. With the observers \<open>4\<close> and \<open>0\<close> registered and the state \<open>10\<close>,
  \<open>setState(10)\<close> calls \<open>4\<close>, which removes itself, and the round ends without calling \<open>0\<close>:
  \<open>testValue\<close> is still \<open>[100, -3]\<close>. With the observers \<open>2\<close> and \<open>0\<close> registered, \<open>2\<close>
  throws and \<open>0\<close> is not called.
\<close>

theorem equal_state_counterexample:
  "stores (subscribed [4, 0]) 0 = \<lparr>state = Plain 10, callbacks = [4, 0]\<rparr> \<and>
   fst (setState unsubscribing_env 5 0 (Plain 10) (subscribed [4, 0])) = Returned \<and>
   snd (snd (setState unsubscribing_env 5 0 (Plain 10) (subscribed [4, 0])))
     = [(4, Plain 10, Plain 10)] \<and>
   host (fst (snd (setState unsubscribing_env 5 0 (Plain 10) (subscribed [4, 0])))) = [100, - 3] \<and>
   callbacks (stores (subscribed [2, 0]) 0) = [2, 0] \<and>
   fst (setState test_env 5 0 (Plain 10) (subscribed [2, 0])) = Threw (Error ''boom'') \<and>
   snd (snd (setState test_env 5 0 (Plain 10) (subscribed [2, 0]))) = [(2, Plain 10, Plain 10)] \<and>
   host (fst (snd (setState test_env 5 0 (Plain 10) (subscribed [2, 0])))) = [100, - 3]"
  by (simp add: setState_def eval_update_def stores_subscribed host_subscribed
      unsubscribing_env_def test_env_def unsubscribe_loop_all eval_nat_numeral Let_def)

text \<open>
  C8, as the code has it. \<open>setState\<close> does not compare the new state with the old one:
  when the update evaluates to the state the container already has, the round runs as
  for any other update. When the updater and the observers complete and leave the
  container as it is, every registered observer is called, once and in registration
  order, with that state as both arguments, each in the world the one before it left.
\<close>

theorem setState_notifies_equal_state:
  assumes "eval_update E r update w = (Inr (state (stores w r)), w1)"
    and "stores w1 r = stores w r"
    and "\<forall>c \<in> set (callbacks (stores w r)).
           completes E r (stores w r) c (state (stores w r)) (state (stores w r)) \<and>
           leaves_store E r (stores w r) c (state (stores w r)) (state (stores w r))"
    and "length (callbacks (stores w r)) \<le> fuel"
  shows "setState E fuel r update w =
           (Returned,
            call_in_order E (callbacks (stores w r)) (state (stores w r)) (state (stores w r))
              (modify_store r (\<lambda>s. s\<lparr>state := state (stores w r)\<rparr>) w1),
            map (\<lambda>c. (c, state (stores w r), state (stores w r))) (callbacks (stores w r)))"
proof -
  have S: "stores w r = (stores w1 r)\<lparr>state := state (stores w r)\<rparr>"
    using assms(2) by simp
  from setState_completes [OF assms(1) S assms(3,4)] show ?thesis
    by simp
qed

theorem setState_notifies_equal_state_witness:
  "setState test_env 2 0 (Plain 10) (subscribed [0, 1]) =
     (Returned, fst (snd (setState test_env 2 0 (Plain 10) (subscribed [0, 1]))),
      [(0, Plain 10, Plain 10), (1, Plain 10, Plain 10)]) \<and>
   host (fst (snd (setState test_env 2 0 (Plain 10) (subscribed [0, 1])))) = [110, - 30]"
proof -
  let ?w = "subscribed [0, 1]"
  have upd: "eval_update test_env 0 (Plain 10) ?w = (Inr (state (stores ?w 0)), ?w)"
    by (simp add: eval_update_def stores_subscribed)
  have obs: "\<forall>c \<in> set (callbacks (stores ?w 0)).
      completes test_env 0 (stores ?w 0) c (state (stores ?w 0)) (state (stores ?w 0)) \<and>
      leaves_store test_env 0 (stores ?w 0) c (state (stores ?w 0)) (state (stores ?w 0))"
    by (simp add: stores_subscribed completes_def leaves_store_def test_env_def)
  have fu: "length (callbacks (stores ?w 0)) \<le> 2"
    by (simp add: stores_subscribed)
  have run: "host (call_in_order test_env [0, 1] (Plain 10) (Plain 10)
               (modify_store 0 (\<lambda>s. s\<lparr>state := Plain 10\<rparr>) ?w)) = [110, - 30]"
    by (simp add: test_env_def host_subscribed)
  have eq: "setState test_env 2 0 (Plain 10) ?w =
      (Returned,
       call_in_order test_env [0, 1] (Plain 10) (Plain 10)
         (modify_store 0 (\<lambda>s. s\<lparr>state := Plain 10\<rparr>) ?w),
       [(0, Plain 10, Plain 10), (1, Plain 10, Plain 10)])"
    using setState_notifies_equal_state [OF upd refl obs fu]
    by (simp only: stores_subscribed Store.simps list.map)
  have a: "setState test_env 2 0 (Plain 10) ?w =
      (Returned, fst (snd (setState test_env 2 0 (Plain 10) ?w)),
       [(0, Plain 10, Plain 10), (1, Plain 10, Plain 10)])"
    by (simp only: eq fst_conv snd_conv)
  have b: "host (fst (snd (setState test_env 2 0 (Plain 10) ?w))) = [110, - 30]"
    using run by (simp only: eq fst_conv snd_conv)
  show ?thesis using a b by blast
qed

text \<open>
  C10. The claim: an argument of \<open>setState\<close> that is a function value is always treated as
  an updater and never stored directly. The code asks \<open>update instanceof Function\<close>, not
  whether \<open>update\<close> can be called. The container holds the function object \<open>5\<close>; the
  function object \<open>9\<close> of another realm, called with it, would return the function object
  \<open>0\<close>; \<open>setState\<close> does not call it and stores \<open>9\<close> itself, and the observers are told so.
\<close>

theorem function_argument_counterexample:
  "\<not> instance_of_Function test_env (Function 9) \<and>
   fst (run_update test_env 9 (Function 5)
          (modify_store 0 (\<lambda>s. s\<lparr>state := Function 5\<rparr>) (subscribed [0, 1])))
     = Inr (Function 0) \<and>
   snd (snd (setState test_env 2 0 (Function 9)
          (modify_store 0 (\<lambda>s. s\<lparr>state := Function 5\<rparr>) (subscribed [0, 1]))))
     = [(0, Function 9, Function 5), (1, Function 9, Function 5)] \<and>
   getState 0 (fst (snd (setState test_env 2 0 (Function 9)
          (modify_store 0 (\<lambda>s. s\<lparr>state := Function 5\<rparr>) (subscribed [0, 1])))))
     = Function 9"
  by (simp add: setState_def eval_update_def stores_subscribed test_env_def getState_def
      eval_nat_numeral Let_def)

text \<open>
  C10, as the code has it. A function object passed to \<open>setState\<close> is called as an updater
  exactly when it is an instance of \<open>Function\<close>, also when the state of the container is
  itself a function object: what is then stored, and passed to the observers as the new
  state, is what the call returns for the current state. A function object that is not
  an instance of \<open>Function\<close> is not called: it is stored as it is. In both cases the
  observers complete and leave the container as it is, and the round calls them in
  order and returns.
\<close>

theorem setState_calls_instances_of_Function:
  assumes "if instance_of_Function E (Function f)
           then run_update E f (state (stores w r)) w = (Inr v, w1)
           else v = Function f \<and> w1 = w"
    and "\<forall>c \<in> set (callbacks (stores w1 r)).
           completes E r ((stores w1 r)\<lparr>state := v\<rparr>) c v (state (stores w r)) \<and>
           leaves_store E r ((stores w1 r)\<lparr>state := v\<rparr>) c v (state (stores w r))"
    and "length (callbacks (stores w1 r)) \<le> fuel"
  shows "setState E fuel r (Function f) w =
           (Returned,
            call_in_order E (callbacks (stores w1 r)) v (state (stores w r))
              (modify_store r (\<lambda>s. s\<lparr>state := v\<rparr>) w1),
            map (\<lambda>c. (c, v, state (stores w r))) (callbacks (stores w1 r))) \<and>
         getState r (fst (snd (setState E fuel r (Function f) w))) = v"
proof -
  let ?S = "(stores w1 r)\<lparr>state := v\<rparr>"
  have upd: "eval_update E r (Function f) w = (Inr v, w1)"
    using assms(1) by (auto simp: eval_update_def split: if_splits)
  have obs: "\<forall>c \<in> set (callbacks ?S).
           completes E r ?S c v (state (stores w r)) \<and> leaves_store E r ?S c v (state (stores w r))"
    using assms(2) by simp
  have fu: "length (callbacks ?S) \<le> fuel"
    using assms(3) by simp
  from setState_completes [OF upd refl obs fu] show ?thesis
    by (simp add: getState_def)
qed

theorem setState_calls_instances_of_Function_witness:
  "instance_of_Function test_env (Function 7) \<and>
   snd (snd (setState test_env 2 0 (Function 7)
          (modify_store 0 (\<lambda>s. s\<lparr>state := Function 5\<rparr>) (subscribed [0, 1]))))
     = [(0, Function 0, Function 5), (1, Function 0, Function 5)] \<and>
   getState 0 (fst (snd (setState test_env 2 0 (Function 7)
          (modify_store 0 (\<lambda>s. s\<lparr>state := Function 5\<rparr>) (subscribed [0, 1])))))
     = Function 0"
proof -
  let ?w = "modify_store 0 (\<lambda>s. s\<lparr>state := Function 5\<rparr>) (subscribed [0, 1])"
  have upd: "if instance_of_Function test_env (Function 7)
             then run_update test_env 7 (state (stores ?w 0)) ?w = (Inr (Function 0), ?w)
             else Function 0 = (Function 7 :: (int, nat) val) \<and> ?w = ?w"
    by (simp add: test_env_def)
  have obs: "\<forall>c \<in> set (callbacks (stores ?w 0)).
      completes test_env 0 ((stores ?w 0)\<lparr>state := Function 0\<rparr>) c (Function 0)
        (state (stores ?w 0)) \<and>
      leaves_store test_env 0 ((stores ?w 0)\<lparr>state := Function 0\<rparr>) c (Function 0)
        (state (stores ?w 0))"
    by (simp add: stores_subscribed completes_def leaves_store_def test_env_def)
  have fu: "length (callbacks (stores ?w 0)) \<le> 2"
    by (simp add: stores_subscribed)
  note round = setState_calls_instances_of_Function [OF upd obs fu]
  have st: "stores ?w 0 = \<lparr>state = Function 5, callbacks = [0, 1]\<rparr>"
    by (simp add: stores_subscribed)
  have a: "instance_of_Function test_env (Function 7)"
    by simp
  have b: "snd (snd (setState test_env 2 0 (Function 7) ?w))
      = [(0, Function 0, Function 5), (1, Function 0, Function 5)]"
    by (simp only: round [THEN conjunct1] snd_conv st Store.simps list.map)
  have c: "getState 0 (fst (snd (setState test_env 2 0 (Function 7) ?w))) = Function 0"
    using round [THEN conjunct2] .
  show ?thesis using a b c by blast
qed

section \<open>Properties of the adapter\<close>

lemma host_call_unsubscribe [simp]: "host (call_unsubscribe u w) = host w"
  by (cases u) simp

lemma state_call_unsubscribe [simp]:
  "state (stores (call_unsubscribe u w) r) = state (stores w r)"
  by (cases u) simp

lemma associated_host:
  "host (associated random) =
     \<lparr>revision = random 0, previous = [- 1], inited = True,
      memo = Some (0, BoundSetState 0 0), pending_effect = None,
      effect_deps = Some (0, Flag True),
      effect_cleanup = Some (Unsubscribe 0 (Subscription (Flag True) 1)),
      draws = 1, allocated = 2\<rparr>"
  by (simp add: associated_def render_def useStore_def useMemo_setState_def fresh_world_def
      mount_def getState_def commit_def effect_def run_cleanup_def subscribe_def
      force_render_def Math_random_def setRevision_def Let_def)

lemma associated_stores:
  "stores (associated random) 0 = \<lparr>state = Plain 0, callbacks = [Subscription (Flag True) 1]\<rparr>"
  by (simp add: associated_def render_def useStore_def useMemo_setState_def fresh_world_def
      mount_def getState_def commit_def effect_def run_cleanup_def subscribe_def
      force_render_def Math_random_def setRevision_def Let_def)



lemma notified_associated:
  "fst (snd (setState (adapter_env changed random no_callers) 1 0 (Plain 5) (associated random)))
     = snd (subscription_callback changed random (Flag True) (Plain 5) (Plain 0)
         (modify_store 0 (\<lambda>s. s\<lparr>state := Plain 5\<rparr>) (associated random)))"
  by (simp add: setState_def eval_update_def associated_stores adapter_env_def no_callers_def
      subscription_callback_def force_render_def Math_random_def setRevision_def Let_def)

lemma token_step:
  assumes "inj random" and "\<forall>k. 0 \<le> random k" and "tokens_ok random h"
    and "previous h' = previous h @ [revision h]"
    and "revision h' = random (draws h)"
    and "draws h' = Suc (draws h)"
  shows "revision h' \<notin> set (revision h # previous h) \<and> tokens_ok random h'"
proof -
  let ?d = "draws h"
  have new: "random ?d \<notin> insert (- 1) (random ` {..<?d})"
  proof
    assume "random ?d \<in> insert (- 1) (random ` {..<?d})"
    then consider "random ?d = - 1" | k where "k < ?d" "random ?d = random k"
      by auto
    then show False
    proof cases
      case 1
      then show False using assms(2) [rule_format, of ?d] by simp
    next
      case 2
      then show False using assms(1) by (auto dest: injD)
    qed
  qed
  have old: "set (revision h # previous h) \<subseteq> insert (- 1) (random ` {..<?d})"
    using assms(3) by (simp add: tokens_ok_def)
  have fresh: "random ?d \<notin> set (revision h # previous h)"
    using new old by blast
  have ok: "tokens_ok random h'"
    using old assms(4,5,6) by (auto simp: tokens_ok_def lessThan_Suc)
  show ?thesis
    using fresh ok assms(5) by simp
qed

lemma subscription_callback_tokens:
  assumes "previous (host (snd (subscription_callback filters random su n p w)))
             \<noteq> previous (host w)"
  shows "previous (host (snd (subscription_callback filters random su n p w)))
           = previous (host w) @ [revision (host w)] \<and>
         revision (host (snd (subscription_callback filters random su n p w)))
           = random (draws (host w)) \<and>
         draws (host (snd (subscription_callback filters random su n p w)))
           = Suc (draws (host w))"
  using assms
  by (auto simp: subscription_callback_def force_render_def Math_random_def setRevision_def
      split: if_splits should_update.splits sum.splits)

lemma commit_tokens:
  assumes "previous (host (commit random w)) \<noteq> previous (host w)"
  shows "previous (host (commit random w)) = previous (host w) @ [revision (host w)] \<and>
         revision (host (commit random w)) = random (draws (host w)) \<and>
         draws (host (commit random w)) = Suc (draws (host w))"
  using assms
  by (auto simp: commit_def effect_def run_cleanup_def cleanup_def subscribe_def Let_def
      force_render_def Math_random_def setRevision_def
      split: option.splits prod.splits if_splits)

lemma inj_distinct_random: "inj distinct_random"
  by (auto simp: inj_def distinct_random_def)




text \<open>
  The conditions on the hook cells hold of a component that has not rendered yet, and
  every step keeps them: a render, a notification from the store, the removal of the
  component.
\<close>

lemma cells_ok_mount: "memo_ok mount \<and> flag_ok mount \<and> tokens_ok random mount"
  by (simp add: memo_ok_def flag_ok_def tokens_ok_def mount_def)

lemma tokens_ok_force_render:
  assumes "tokens_ok random (host w)"
  shows "tokens_ok random (host (force_render random w))"
  using assms
  by (auto simp: tokens_ok_def force_render_def Math_random_def setRevision_def lessThan_Suc)

lemma useStore_keeps_cells_ok:
  assumes "memo_ok (host w)" and "flag_ok (host w)" and "tokens_ok random (host w)"
  shows "memo_ok (host (snd (useStore store shouldUpdate w))) \<and>
         flag_ok (host (snd (useStore store shouldUpdate w))) \<and>
         tokens_ok random (host (snd (useStore store shouldUpdate w)))"
  using assms
  by (cases store)
    (auto simp: useStore_def useMemo_setState_def memo_ok_def flag_ok_def tokens_ok_def Let_def
      split: option.splits fn.splits)

lemma commit_keeps_cells_ok:
  assumes "memo_ok (host w)" and "flag_ok (host w)" and "tokens_ok random (host w)"
  shows "memo_ok (host (commit random w)) \<and> flag_ok (host (commit random w)) \<and>
         tokens_ok random (host (commit random w))"
  using assms
  by (auto simp: commit_def effect_def run_cleanup_def cleanup_def subscribe_def memo_ok_def
      flag_ok_def tokens_ok_def force_render_def Math_random_def setRevision_def lessThan_Suc Let_def
      split: option.splits fn.splits prod.splits)

lemma render_keeps_cells_ok:
  assumes "memo_ok (host w)" and "flag_ok (host w)" and "tokens_ok random (host w)"
  shows "memo_ok (host (render random store shouldUpdate w)) \<and>
         flag_ok (host (render random store shouldUpdate w)) \<and>
         tokens_ok random (host (render random store shouldUpdate w))"
proof (cases "useStore store shouldUpdate w")
  case (Pair res w1)
  have ok1: "memo_ok (host w1) \<and> flag_ok (host w1) \<and> tokens_ok random (host w1)"
    using useStore_keeps_cells_ok [OF assms, of store shouldUpdate] Pair by simp
  show ?thesis
  proof (cases res)
    case (Inl e)
    then show ?thesis using Pair ok1 by (simp add: render_def)
  next
    case (Inr x)
    then show ?thesis
      using Pair ok1 commit_keeps_cells_ok [of w1 random] by (simp add: render_def)
  qed
qed

lemma subscription_callback_keeps_cells_ok:
  assumes "memo_ok (host w)" and "flag_ok (host w)" and "tokens_ok random (host w)"
  shows "memo_ok (host (snd (subscription_callback filters random su n p w))) \<and>
         flag_ok (host (snd (subscription_callback filters random su n p w))) \<and>
         tokens_ok random (host (snd (subscription_callback filters random su n p w)))"
  using assms
  by (auto simp: subscription_callback_def memo_ok_def flag_ok_def tokens_ok_def
      force_render_def Math_random_def setRevision_def lessThan_Suc
      split: should_update.splits sum.splits option.splits fn.splits)

lemma unmount_keeps_cells_ok:
  assumes "memo_ok (host w)" and "flag_ok (host w)" and "tokens_ok random (host w)"
  shows "memo_ok (host (unmount w)) \<and> flag_ok (host (unmount w)) \<and>
         tokens_ok random (host (unmount w))"
  using assms
  by (auto simp: unmount_def run_cleanup_def cleanup_def memo_ok_def flag_ok_def tokens_ok_def
      Let_def split: option.splits fn.splits)

section \<open>The claims about the adapter\<close>

text \<open>
  C5. When the value passed as \<open>store\<close> fails the check \<open>isStore\<close>, \<open>useStore\<close> throws
  before anything else happens: the world is the one it was called in, so no hook cell
  has been touched and no store has a new observer.
\<close>

theorem useStore_rejects_what_is_not_a_store:
  assumes "\<not> isStore store"
  shows "useStore store shouldUpdate w = (Inl (Error '''store' is not an instance of Store''), w)"
  using assms by (simp add: useStore_def)

theorem useStore_rejects_what_is_not_a_store_witness:
  "\<not> isStore (Other (Plain 3 :: (int, fn) val)) \<and>
   useStore (Other (Plain 3)) (Flag True) (associated stuck_random)
     = (Inl (Error '''store' is not an instance of Store''), associated stuck_random)"
  using useStore_rejects_what_is_not_a_store
    [of "Other (Plain 3)" "Flag True" "associated stuck_random"]
  by simp




text \<open>
  C9. The function object that \<open>useStore\<close> returns as \<open>setState\<close> is the \<open>setState\<close> of the
  store bound to that store: calling it is calling \<open>store.setState\<close>. While the \<open>useMemo\<close>
  cell is what a render left, the next render returns the same function object if it is
  given the same store, and a different one if it is given a different store.
\<close>

theorem returned_setState_is_stable:
  fixes w w2 :: "'a rworld"
  assumes "memo_ok (host w)"
    and "useStore (StoreObject r) shouldUpdate w = (Inr (s, f), w1)"
  shows "call_setter E fuel f update w2 = Some (setState E fuel r update w2) \<and>
         memo_ok (host w1) \<and>
         (\<forall>r2 su2 (w3 :: 'a rworld). memo (host w3) = memo (host w1) \<longrightarrow>
            (\<exists>s2 f2 w4. useStore (StoreObject r2) su2 w3 = (Inr (s2, f2), w4) \<and>
                         (f2 = f \<longleftrightarrow> r2 = r)))"
proof -
  obtain k where f: "f = BoundSetState r k" and m1: "memo (host w1) = Some (r, f)"
    and ok1: "memo_ok (host w1)"
    using assms
    by (auto simp: useStore_def useMemo_setState_def memo_ok_def Let_def
        split: option.splits prod.splits fn.splits if_splits)
  have "\<exists>s2 f2 w4. useStore (StoreObject r2) su2 w3 = (Inr (s2, f2), w4) \<and> (f2 = f \<longleftrightarrow> r2 = r)"
    if "memo (host w3) = memo (host w1)" for r2 su2 and w3 :: "'a rworld"
    using that m1 f
    by (auto simp: useStore_def useMemo_setState_def Let_def)
  then show ?thesis
    using f ok1 by auto
qed

theorem returned_setState_is_stable_witness:
  "(\<exists>s. useStore (StoreObject 0) (Flag True) fresh_world
          = (Inr (s, BoundSetState 0 0), snd (useStore (StoreObject 0) (Flag True) fresh_world))) \<and>
   (\<exists>s w. useStore (StoreObject 0) (Flag False) (associated stuck_random)
          = (Inr (s, BoundSetState 0 0), w)) \<and>
   (\<exists>s w. useStore (StoreObject 1) (Flag True) (associated stuck_random)
          = (Inr (s, BoundSetState 1 2), w))"
proof -
  let ?w1 = "snd (useStore (StoreObject 0) (Flag True) fresh_world)"
  have ok: "memo_ok (host fresh_world)"
    by (simp add: memo_ok_def fresh_world_def mount_def)
  have run: "useStore (StoreObject 0) (Flag True) fresh_world = (Inr (Plain 0, BoundSetState 0 0), ?w1)"
    by (simp add: useStore_def useMemo_setState_def fresh_world_def mount_def getState_def)
  have m: "memo (host (associated stuck_random)) = memo (host ?w1)"
    by (simp add: associated_host useStore_def useMemo_setState_def fresh_world_def mount_def
        getState_def)
  from returned_setState_is_stable [OF ok run] m
  have "\<exists>s2 f2 w4. useStore (StoreObject 0) (Flag False) (associated stuck_random)
            = (Inr (s2, f2), w4) \<and> (f2 = BoundSetState 0 0 \<longleftrightarrow> (0::nat) = 0)"
    by blast
  then have a: "\<exists>s w. useStore (StoreObject 0) (Flag False) (associated stuck_random)
            = (Inr (s, BoundSetState 0 0), w)"
    by auto
  have b: "\<exists>s w. useStore (StoreObject 1) (Flag True) (associated stuck_random)
          = (Inr (s, BoundSetState 1 2), w)"
    by (simp add: useStore_def useMemo_setState_def associated_host getState_def)
  show ?thesis using run a b by blast
qed

text \<open>
  C7. The claim: each time the adapter forces a re-render, the render token advances to a
  value distinct from every previous value. The token is whatever \<open>Math.random()\<close>
  returns. With a random source that returns \<open>1/2\<close> twice (a stubbed one always does),
  the token is \<open>1/2\<close> after the association, and after the store's next notification,
  which calls \<open>setRevision\<close> again, it is still \<open>1/2\<close>.
\<close>

theorem render_token_repeats_counterexample:
  "revision (host (associated stuck_random)) = 1 / 2 \<and>
   previous (host (associated stuck_random)) = [- 1] \<and>
   revision (host (fst (snd (setState (adapter_env changed stuck_random no_callers) 1 0 (Plain 5)
       (associated stuck_random))))) = 1 / 2 \<and>
   previous (host (fst (snd (setState (adapter_env changed stuck_random no_callers) 1 0 (Plain 5)
       (associated stuck_random))))) = [- 1, 1 / 2]"
  unfolding notified_associated
  by (simp add: subscription_callback_def force_render_def Math_random_def
      setRevision_def associated_host stuck_random_def)

text \<open>
  C7, as the code has it. Each forced re-render, from a notification of the store or from
  the effect, sets the token to the next value of the random source. When that source
  returns numbers in \<open>[0, 1)\<close> and never the same number twice, the new token differs from
  the initial \<open>-1\<close> and from every value the token has had.
\<close>

theorem render_token_is_latest_draw:
  assumes "inj random" and "\<forall>k. 0 \<le> random k \<and> random k < 1"
    and "tokens_ok random (host w)"
    and "w' = snd (subscription_callback filters random shouldUpdate n p w) \<or>
         w' = commit random w"
    and "previous (host w') \<noteq> previous (host w)"
  shows "previous (host w') = previous (host w) @ [revision (host w)] \<and>
         revision (host w') = random (draws (host w)) \<and>
         revision (host w') \<notin> set (revision (host w) # previous (host w)) \<and>
         tokens_ok random (host w')"
proof -
  have nn: "\<forall>k. 0 \<le> random k"
    using assms(2) by simp
  have eqs: "previous (host w') = previous (host w) @ [revision (host w)] \<and>
         revision (host w') = random (draws (host w)) \<and>
         draws (host w') = Suc (draws (host w))"
    using assms(4,5) subscription_callback_tokens [of filters random shouldUpdate n p w]
      commit_tokens [of random w]
    by blast
  then show ?thesis
    using token_step [OF assms(1) nn assms(3), of "host w'"] by simp
qed

theorem render_token_is_latest_draw_witness:
  "previous (host (fst (snd (setState (adapter_env changed distinct_random no_callers) 1 0 (Plain 5)
       (associated distinct_random))))) = [- 1, 1 / 2] \<and>
   revision (host (fst (snd (setState (adapter_env changed distinct_random no_callers) 1 0 (Plain 5)
       (associated distinct_random))))) = 1 / 3"
proof -
  let ?w = "modify_store 0 (\<lambda>s. s\<lparr>state := Plain 5\<rparr>) (associated distinct_random)"
  let ?w' = "snd (subscription_callback changed distinct_random (Flag True) (Plain 5) (Plain 0) ?w)"
  have rng: "\<forall>k. 0 \<le> distinct_random k \<and> distinct_random k < 1"
    by (simp add: distinct_random_def)
  have ok: "tokens_ok distinct_random (host ?w)"
    by (simp add: tokens_ok_def associated_host distinct_random_def)
  have w': "?w' = snd (subscription_callback changed distinct_random (Flag True) (Plain 5)
                (Plain 0) ?w)
              \<or> ?w' = commit distinct_random ?w"
    by simp
  have forced: "previous (host ?w') \<noteq> previous (host ?w)"
    by (simp add: subscription_callback_def force_render_def Math_random_def setRevision_def
        associated_host)
  from render_token_is_latest_draw [OF inj_distinct_random rng ok w' forced] show ?thesis
    unfolding notified_associated
    by (simp add: associated_host distinct_random_def)
qed

end
